theory Spec2Isabelle
  imports Complex_Main "HOL-Library.Sublist"
begin

section \<open>Retrieval pipeline of the Arabic document assistant: model\<close>

text \<open>
  A shallow embedding of the retrieval core of the repository: text normalisation
  (fix_arabic_text) and chunking (chunk_document) from document_processor.py, and the
  embedding index (VectorStore.add_document, VectorStore.search) from vector_store.py.

  Python strings are sequences of Unicode code points, so a string is a list of natural
  numbers here (the 8-bit characters of HOL cannot hold Arabic letters). Exceptions are
  values of the type error; a function that can raise returns a sum whose left injection
  is the exception. Mutation of the store is explicit state passing. The libraries the
  repository calls (the sentence-embedding model, the FAISS index, the LangChain text
  splitter, langdetect) are not part of the repository: the embedding model, the splitter
  and langdetect are parameters of the functions that call them, and the flat L2 index is
  modelled by its documented behaviour.
\<close>

subsection \<open>Strings\<close>

type_synonym ustring = "nat list"

abbreviation SP :: nat where "SP \<equiv> 0x20"

abbreviation NL :: nat where "NL \<equiv> 0x0A"

abbreviation FF :: nat where "FF \<equiv> 0x0C"

text \<open>
  ustr turns an ASCII literal into a string of code points.
\<close>

definition ustr :: "string \<Rightarrow> ustring" where
  "ustr s = map of_char s"

text \<open>
  The characters that str.strip removes and that the regular-expression class for
  whitespace matches on a str pattern: the 29 code points for which str.isspace holds.
\<close>

definition py_isspace :: "nat \<Rightarrow> bool" where
  "py_isspace c \<longleftrightarrow>
     (0x09 \<le> c \<and> c \<le> 0x0D) \<or> (0x1C \<le> c \<and> c \<le> 0x20) \<or> c = 0x85 \<or> c = 0xA0 \<or>
     c = 0x1680 \<or> (0x2000 \<le> c \<and> c \<le> 0x200A) \<or> c = 0x2028 \<or> c = 0x2029 \<or>
     c = 0x202F \<or> c = 0x205F \<or> c = 0x3000"

definition strip :: "ustring \<Rightarrow> ustring" where
  "strip s = rev (dropWhile py_isspace (rev (dropWhile py_isspace s)))"

subsection \<open>Normaliser: fix_arabic_text (document_processor.py, lines 118-142)\<close>

text \<open>
  sub_spaces is re.sub with the pattern of one or more spaces and a single space as the
  replacement (line 124): scanning from the left, a space and all spaces that follow it
  are replaced by one space. sub_newlines is re.sub with the pattern of three or more
  newlines and two newlines as the replacement (line 125): the pattern is greedy, so it
  matches a maximal run, and a run of one or two newlines is left as it is.
\<close>

function sub_spaces :: "ustring \<Rightarrow> ustring" where
  "sub_spaces [] = []"
| "sub_spaces (c # cs) =
     (if c = SP then SP # sub_spaces (dropWhile (\<lambda>d. d = SP) cs)
      else c # sub_spaces cs)"
  by pat_completeness auto

termination
  by (relation "measure length") (auto simp: length_dropWhile_le less_Suc_eq_le)

function sub_newlines :: "ustring \<Rightarrow> ustring" where
  "sub_newlines [] = []"
| "sub_newlines (c # cs) =
     (if c = NL then
        (if 3 \<le> Suc (length (takeWhile (\<lambda>d. d = NL) cs)) then [NL, NL]
         else NL # takeWhile (\<lambda>d. d = NL) cs)
        @ sub_newlines (dropWhile (\<lambda>d. d = NL) cs)
      else c # sub_newlines cs)"
  by pat_completeness auto

termination
  by (relation "measure length") (auto simp: length_dropWhile_le less_Suc_eq_le)

text \<open>
  str.replace for a search string of one character (lines 128 and 140), and the
  replacement table of lines 131-137 in its insertion order, which is the order in which
  a dict is iterated.
\<close>

definition replace_char :: "nat \<Rightarrow> ustring \<Rightarrow> ustring \<Rightarrow> ustring" where
  "replace_char old new s = concat (map (\<lambda>c. if c = old then new else [c]) s)"

definition replacements :: "(nat \<times> ustring) list" where
  "replacements = [(0x623, [0x627]), (0x625, [0x627]), (0x622, [0x627]),
                   (0x649, [0x64A]), (0x629, [0x647])]"

definition fix_arabic_text :: "ustring \<Rightarrow> ustring" where
  "fix_arabic_text text =
     (if text = [] \<or> length (strip text) = 0 then []
      else let text1 = sub_spaces text;
               text2 = sub_newlines text1;
               text3 = replace_char 0xFEFB [0x644, 0x627] text2
           in foldl (\<lambda>t (old, new). replace_char old new t) text3 replacements)"

subsection \<open>What the specification says the normaliser does\<close>

text \<open>
  The specification speaks of runs of characters. groups splits a string into its maximal
  runs (character, length); collapse_group shortens a run of spaces to one space and a
  run of three or more newlines to two; collapse_runs_spec applies that to every run.
  These definitions follow the words of the specification, not the code; the code is
  compared with them below. collapse_space_group and collapse_newline_group are the two
  halves of collapse_group, and wf_groups says that a list of runs is a run-length
  encoding (no empty run, neighbours of different characters).
\<close>

function groups :: "ustring \<Rightarrow> (nat \<times> nat) list" where
  "groups [] = []"
| "groups (c # cs) =
     (c, Suc (length (takeWhile (\<lambda>d. d = c) cs))) # groups (dropWhile (\<lambda>d. d = c) cs)"
  by pat_completeness auto

termination
  by (relation "measure length") (auto simp: length_dropWhile_le less_Suc_eq_le)

definition ungroup :: "(nat \<times> nat) list \<Rightarrow> ustring" where
  "ungroup gs = concat (map (\<lambda>(c, n). replicate n c) gs)"

definition collapse_group :: "nat \<times> nat \<Rightarrow> nat \<times> nat" where
  "collapse_group g =
     (case g of (c, n) \<Rightarrow>
        if c = SP then (c, 1) else if c = NL \<and> 3 \<le> n then (c, 2) else (c, n))"

definition collapse_runs_spec :: "ustring \<Rightarrow> ustring" where
  "collapse_runs_spec s = ungroup (map collapse_group (groups s))"

fun wf_groups :: "(nat \<times> nat) list \<Rightarrow> bool" where
  "wf_groups [] = True"
| "wf_groups ((c, n) # gs) =
     (0 < n \<and> (case gs of [] \<Rightarrow> True | (d, _) # _ \<Rightarrow> d \<noteq> c) \<and> wf_groups gs)"

definition collapse_space_group :: "nat \<times> nat \<Rightarrow> nat \<times> nat" where
  "collapse_space_group g = (case g of (c, n) \<Rightarrow> if c = SP then (c, 1) else (c, n))"

definition collapse_newline_group :: "nat \<times> nat \<Rightarrow> nat \<times> nat" where
  "collapse_newline_group g = (case g of (c, n) \<Rightarrow> if c = NL \<and> 3 \<le> n then (c, 2) else (c, n))"

text \<open>
  arabic_table is the fixed Arabic normalisation table on its own (ligature first, then
  the five letters), and whitespace_only is the guard of line 120 read as a property of
  the input.
\<close>

definition arabic_table :: "ustring \<Rightarrow> ustring" where
  "arabic_table s =
     foldl (\<lambda>t (old, new). replace_char old new t) (replace_char 0xFEFB [0x644, 0x627] s) replacements"

definition whitespace_only :: "ustring \<Rightarrow> bool" where
  "whitespace_only s \<longleftrightarrow> (\<forall>c \<in> set s. py_isspace c)"

subsection \<open>Chunker: chunk_document (document_processor.py, lines 144-254)\<close>

text \<open>
  The exceptions the model distinguishes, and the dictionaries that chunk_document
  builds: a passage has the keys id, text and metadata; metadata has the keys source,
  chunk_id, page, line and language. The fallback passage of line 254 has no language
  key, so language is optional. The keys id and text are written id_key and text_key.
\<close>

datatype error = SplitterError | AttributeError | EmbeddingError | AssertionError | IndexError | DetectError

record metadata =
  source :: string
  chunk_id :: nat
  page :: nat
  line :: nat
  language :: "string option"

record passage =
  id_key :: nat
  text_key :: ustring
  metadata :: metadata

text \<open>
  The LangChain splitter is a parameter: given chunk size, overlap, the separator list
  and the text of one page it returns the page contents of the pieces, or raises.
\<close>

type_synonym split_documents = "nat \<Rightarrow> nat \<Rightarrow> ustring list \<Rightarrow> ustring \<Rightarrow> error + ustring list"

definition is_arabic_char :: "nat \<Rightarrow> bool" where
  "is_arabic_char c \<longleftrightarrow> 0x600 \<le> c \<and> c \<le> 0x6FF"

text \<open>
  detect_language (lines 144-163), with langdetect as the parameter detect. The source
  compares the count of Arabic characters with len(text) * 0.3 in floating point; when
  three tenths of the length is an integer the product is rounded to exactly that
  integer, so the comparison is the one between 10 * count and 3 * length.
\<close>

definition detect_language :: "(ustring \<Rightarrow> error + string) \<Rightarrow> ustring \<Rightarrow> string" where
  "detect_language detect text =
     (if text = [] \<or> length (strip text) = 0 then ''unknown''
      else let arabic_char_count = length (filter is_arabic_char text)
           in if 10 * arabic_char_count > 3 * length text then ''arabic''
              else (case detect (take 1000 text) of
                      Inr lang \<Rightarrow> if lang = ''ar'' then ''arabic'' else ''english''
                    | Inl _ \<Rightarrow> ''arabic''))"

text \<open>
  split_char is str.split with a separator of one character (line 185).

  blank_match and re_split_pages are re.split for the pattern of line 188: a newline,
  optional whitespace, a newline, optional whitespace, a newline. Both repetitions are
  greedy and every character they can match is whitespace, so a match that starts at a
  newline exists exactly when the whitespace that follows holds two more newlines, and it
  then ends at the last newline of that whitespace. blank_match gives the length of the
  match at the head of the string.
\<close>

fun split_char :: "nat \<Rightarrow> ustring \<Rightarrow> ustring list" where
  "split_char sep [] = [[]]"
| "split_char sep (c # cs) =
     (if c = sep then [] # split_char sep cs
      else (case split_char sep cs of p # ps \<Rightarrow> (c # p) # ps | [] \<Rightarrow> [[c]]))"

definition last_index :: "nat \<Rightarrow> ustring \<Rightarrow> nat" where
  "last_index c s = length s - Suc (length (takeWhile (\<lambda>d. d \<noteq> c) (rev s)))"

definition blank_match :: "ustring \<Rightarrow> nat option" where
  "blank_match s =
     (case s of
        [] \<Rightarrow> None
      | c # cs \<Rightarrow>
          if c \<noteq> NL then None
          else let ws = takeWhile py_isspace cs
               in if 2 \<le> length (filter (\<lambda>d. d = NL) ws) then Some (Suc (Suc (last_index NL ws)))
                  else None)"

function re_split_pages :: "ustring \<Rightarrow> ustring list" where
  "re_split_pages [] = [[]]"
| "re_split_pages (c # cs) =
     (case blank_match (c # cs) of
        Some n \<Rightarrow> [] # re_split_pages (drop (n - 1) cs)
      | None \<Rightarrow> (case re_split_pages cs of p # ps \<Rightarrow> (c # p) # ps | [] \<Rightarrow> [[c]]))"
  by pat_completeness auto

termination
  by (relation "measure length") auto

text \<open>
  Line 185 ends in a comma, so in the form-feed branch pages is a tuple with one
  component, the list of parts; in the other branch it is a list. len of the tuple is 1.
\<close>

datatype pages = PagesTuple "ustring list" | PagesList "ustring list"

fun len_pages :: "pages \<Rightarrow> nat" where
  "len_pages (PagesTuple _) = 1"
| "len_pages (PagesList ps) = length ps"

text \<open>
  str.find (with the result -1 as None) and str.count for one character, used by the
  line estimate of lines 228-234, and the two separator lists of lines 200 and 207.
\<close>

fun find_str :: "ustring \<Rightarrow> ustring \<Rightarrow> nat option" where
  "find_str [] sub = (if sub = [] then Some 0 else None)"
| "find_str (c # cs) sub =
     (if prefix sub (c # cs) then Some 0 else map_option Suc (find_str cs sub))"

definition count_char :: "ustring \<Rightarrow> nat \<Rightarrow> nat" where
  "count_char s c = length (filter (\<lambda>d. d = c) s)"

definition arabic_separators :: "ustring list" where
  "arabic_separators = [[NL, NL], [NL], ustr ''.'', ustr ''!'', ustr ''?'', [0x60C], [0x61B], [SP], []]"

definition english_separators :: "ustring list" where
  "english_separators = [[NL, NL], [NL], ustr ''.'', ustr ''!'', ustr ''?'', ustr '';'', ustr '':'', [SP], []]"

text \<open>
  The inner loop (lines 225-247) over the pieces of one page and the outer loop
  (lines 214-247) over the pages. page_num is the index of enumerate; next_id is the
  running chunk_id.
\<close>

fun page_chunks_loop :: "bool \<Rightarrow> nat \<Rightarrow> ustring \<Rightarrow> nat \<Rightarrow> ustring list \<Rightarrow> passage list" where
  "page_chunks_loop is_arabic page_num page_text next_id [] = []"
| "page_chunks_loop is_arabic page_num page_text next_id (page_content # rest) =
     (let line_num = (case find_str page_text (take 50 page_content) of
                        None \<Rightarrow> 1
                      | Some start_pos \<Rightarrow> count_char (take start_pos page_text) NL + 1)
      in \<lparr>id_key = next_id, text_key = page_content,
          metadata = \<lparr>source = ''document'', chunk_id = next_id, page = page_num + 1,
                      line = line_num,
                      language = Some (if is_arabic then ''arabic'' else ''english'')\<rparr>\<rparr>
         # page_chunks_loop is_arabic page_num page_text (next_id + 1) rest)"

fun pages_loop ::
  "(ustring \<Rightarrow> error + ustring list) \<Rightarrow> bool \<Rightarrow> nat \<Rightarrow> nat \<Rightarrow> ustring list \<Rightarrow> error + passage list" where
  "pages_loop text_splitter is_arabic page_num next_id [] = Inr []"
| "pages_loop text_splitter is_arabic page_num next_id (page_text # rest) =
     (if strip page_text = [] then pages_loop text_splitter is_arabic (page_num + 1) next_id rest
      else (case text_splitter page_text of
              Inl e \<Rightarrow> Inl e
            | Inr page_chunks \<Rightarrow>
                (case pages_loop text_splitter is_arabic (page_num + 1)
                        (next_id + length page_chunks) rest of
                   Inl e \<Rightarrow> Inl e
                 | Inr chunks \<Rightarrow>
                     Inr (page_chunks_loop is_arabic page_num page_text next_id page_chunks @ chunks))))"

text \<open>
  The body of the try block (lines 180-250). Iterating over the one-component tuple would
  hand the list of parts to strip, which a list does not have; the length guard of line
  191 replaces the tuple before that can happen.
\<close>

definition chunk_document_try :: "split_documents \<Rightarrow> bool \<Rightarrow> ustring \<Rightarrow> error + passage list" where
  "chunk_document_try split_documents is_arabic text =
     (let pages0 = (if FF \<in> set text then PagesTuple (split_char FF text)
                    else PagesList (re_split_pages text));
          pages1 = (if len_pages pages0 < 2 \<or> len_pages pages0 > 500 then PagesList [text]
                    else pages0);
          text_splitter = (if is_arabic then split_documents 500 100 arabic_separators
                           else split_documents 500 100 english_separators)
      in case pages1 of
           PagesList ps \<Rightarrow> pages_loop text_splitter is_arabic 0 0 ps
         | PagesTuple _ \<Rightarrow> Inl AttributeError)"

text \<open>
  chunk_document itself: the language flag of line 173, the guard of lines 175-177, the
  try block and the fallback of line 254.
\<close>

definition chunk_document :: "split_documents \<Rightarrow> ustring \<Rightarrow> passage list" where
  "chunk_document split_documents text =
     (let is_arabic = list_ex is_arabic_char (take 500 text)
      in if text = [] \<or> length (strip text) = 0 then []
         else (case chunk_document_try split_documents is_arabic text of
                 Inr chunks \<Rightarrow> chunks
               | Inl e \<Rightarrow>
                   [\<lparr>id_key = 0, text_key = text,
                     metadata = \<lparr>source = ''document'', chunk_id = 0, page = 1, line = 1,
                                 language = None\<rparr>\<rparr>]))"

text \<open>
  Two splitters to run the chunker on: one that returns a page as a single stripped piece,
  which is what the recursive splitter does with a page shorter than the chunk size, and
  one that always raises.
\<close>

definition short_text_splitter :: split_documents where
  "short_text_splitter chunk_size chunk_overlap separators page_text =
     (if strip page_text = [] then Inr [] else Inr [strip page_text])"

definition raising_splitter :: split_documents where
  "raising_splitter chunk_size chunk_overlap separators page_text = Inl SplitterError"

text \<open>
  The texts the theorems below talk about.
\<close>

definition scenario_text :: ustring where
  "scenario_text = ustr ''Line one.'' @ [NL, NL] @ ustr ''Line two.'' @ [NL, NL, NL] @ ustr ''Line three.''"

subsection \<open>Embedding index: VectorStore (vector_store.py)\<close>

text \<open>
  An embedding is a list of reals; model.encode is the parameter of type encode, which
  maps a batch of texts to a list of rows or raises.

  faiss.IndexFlatL2 holds its dimension and the vectors added so far. add checks the
  dimension of the rows. search checks the dimension and that k is positive, and returns
  for each query k pairs of distance and label: the stored vectors in the order of
  increasing squared Euclidean distance, then, if fewer than k vectors are stored, the
  label -1 with the largest float as distance.
\<close>

type_synonym vec = "real list"

type_synonym encode = "ustring list \<Rightarrow> error + vec list"

record faiss_index =
  dims :: nat
  vectors :: "vec list"

definition IndexFlatL2 :: "nat \<Rightarrow> faiss_index" where
  "IndexFlatL2 dm = \<lparr>dims = dm, vectors = []\<rparr>"

definition index_add :: "faiss_index \<Rightarrow> vec list \<Rightarrow> error + faiss_index" where
  "index_add ix x =
     (if list_all (\<lambda>v. length v = dims ix) x then Inr (ix\<lparr>vectors := vectors ix @ x\<rparr>)
      else Inl AssertionError)"

definition l2_sqr :: "vec \<Rightarrow> vec \<Rightarrow> real" where
  "l2_sqr x y = sum_list (map (\<lambda>(a, b). (a - b) * (a - b)) (zip x y))"

definition FLT_MAX :: real where
  "FLT_MAX = 340282346638528859811704183484516925440"

definition knn :: "faiss_index \<Rightarrow> vec \<Rightarrow> nat \<Rightarrow> (real \<times> int) list" where
  "knn ix q k =
     (let scored = map (\<lambda>(i, v). (l2_sqr q v, int i)) (enumerate 0 (vectors ix));
          top = take k (sort_key fst scored)
      in top @ replicate (k - length top) (FLT_MAX, - 1))"

definition index_search :: "faiss_index \<Rightarrow> vec list \<Rightarrow> int \<Rightarrow> error + (real \<times> int) list list" where
  "index_search ix x k =
     (if list_all (\<lambda>v. length v = dims ix) x \<and> 0 < k then Inr (map (\<lambda>q. knn ix q (nat k)) x)
      else Inl AssertionError)"

text \<open>
  The fields of VectorStore (lines 16-19), the dictionaries that search returns (lines
  80-84), and one constructor per logging call of vector_store.py with its level.
\<close>

record vector_store =
  index :: "faiss_index option"
  chunks :: "passage list"
  dimension :: nat

definition init :: vector_store where
  "init = \<lparr>index = None, chunks = [], dimension = 768\<rparr>"

record search_result =
  chunk :: ustring
  result_metadata :: metadata
  score :: real

datatype log_record =
    AddingChunks nat
  | NoTextsToEmbed
  | IndexCreated nat
  | ErrorCreatingVectorStore error
  | NoIndexAvailable
  | NoChunksAvailable
  | SearchFound "int list" "real list"
  | SearchReturned ustring nat
  | ResultLine nat real ustring
  | ErrorDuringSearch error

datatype level = INFO | WARNING | ERROR

fun levelname :: "log_record \<Rightarrow> level" where
  "levelname (AddingChunks _) = INFO"
| "levelname NoTextsToEmbed = WARNING"
| "levelname (IndexCreated _) = INFO"
| "levelname (ErrorCreatingVectorStore _) = ERROR"
| "levelname NoIndexAvailable = WARNING"
| "levelname NoChunksAvailable = WARNING"
| "levelname (SearchFound _ _) = INFO"
| "levelname (SearchReturned _ _) = INFO"
| "levelname (ResultLine _ _ _) = INFO"
| "levelname (ErrorDuringSearch _) = ERROR"

text \<open>
  embeddings.shape[1] (line 38), which fails on an array without rows.
\<close>

definition shape1 :: "vec list \<Rightarrow> error + nat" where
  "shape1 embeddings = (case embeddings of [] \<Rightarrow> Inl IndexError | v # _ \<Rightarrow> Inr (length v))"

text \<open>
  add_document (lines 21-49). The passage list is stored first (line 24), before the try
  block. The handler logs and raises again, so an exception leaves the store as the
  statements before it made it.
\<close>

definition add_document ::
  "encode \<Rightarrow> vector_store \<Rightarrow> passage list \<Rightarrow> vector_store \<times> log_record list \<times> (error + nat)" where
  "add_document model_encode self new_chunks =
     (let log0 = [AddingChunks (length new_chunks)];
          self1 = self\<lparr>chunks := new_chunks\<rparr>;
          texts = map text_key new_chunks
      in if texts = [] then (self1, log0 @ [NoTextsToEmbed], Inr 0)
         else (case model_encode texts of
                 Inl e \<Rightarrow> (self1, log0 @ [ErrorCreatingVectorStore e], Inl e)
               | Inr embeddings \<Rightarrow>
                   (case shape1 embeddings of
                      Inl e \<Rightarrow> (self1, log0 @ [ErrorCreatingVectorStore e], Inl e)
                    | Inr dm \<Rightarrow>
                        (let self2 = self1\<lparr>dimension := dm\<rparr>;
                             self3 = self2\<lparr>index := Some (IndexFlatL2 dm)\<rparr>
                         in case index_add (IndexFlatL2 dm) embeddings of
                              Inl e \<Rightarrow> (self3, log0 @ [ErrorCreatingVectorStore e], Inl e)
                            | Inr ix \<Rightarrow>
                                (self3\<lparr>index := Some ix\<rparr>, log0 @ [IndexCreated dm],
                                 Inr (length new_chunks))))))"

text \<open>
  The loop of lines 73-84 over the hits of the first query row, the try block of search
  (lines 62-92) and search itself (lines 51-95), whose handler turns every exception of
  the try block into an empty result and an error record.
\<close>

fun results_loop :: "passage list \<Rightarrow> (real \<times> int) list \<Rightarrow> search_result list" where
  "results_loop cs [] = []"
| "results_loop cs ((distance, idx) # rest) =
     (if idx = - 1 then results_loop cs rest
      else if 0 \<le> idx \<and> idx < int (length cs) then
        \<lparr>chunk = text_key (cs ! nat idx), result_metadata = metadata (cs ! nat idx),
         score = distance\<rparr> # results_loop cs rest
      else results_loop cs rest)"

definition search_try ::
  "encode \<Rightarrow> faiss_index \<Rightarrow> passage list \<Rightarrow> ustring \<Rightarrow> int \<Rightarrow> error + (log_record list \<times> search_result list)" where
  "search_try model_encode ix cs query k =
     (case model_encode [query] of
        Inl e \<Rightarrow> Inl e
      | Inr query_embedding \<Rightarrow>
          (case index_search ix query_embedding k of
             Inl e \<Rightarrow> Inl e
           | Inr rows \<Rightarrow>
               (case rows of
                  [] \<Rightarrow> Inl IndexError
                | row0 # _ \<Rightarrow>
                    (let results = results_loop cs row0
                     in Inr ([SearchFound (map snd row0) (map fst row0),
                              SearchReturned query (length results)]
                             @ map (\<lambda>(i, r). ResultLine (i + 1) (score r) (take 100 (chunk r)))
                                 (enumerate 0 results),
                             results)))))"

definition search ::
  "encode \<Rightarrow> vector_store \<Rightarrow> ustring \<Rightarrow> int \<Rightarrow> log_record list \<times> (error + search_result list)" where
  "search model_encode self query k =
     (case index self of
        None \<Rightarrow> ([NoIndexAvailable], Inr [])
      | Some ix \<Rightarrow>
          if chunks self = [] then ([NoChunksAvailable], Inr [])
          else (case search_try model_encode ix (chunks self) query k of
                  Inr (lg, results) \<Rightarrow> (lg, Inr results)
                | Inl e \<Rightarrow> ([ErrorDuringSearch e], Inr [])))"

text \<open>
  A small embedding function (it raises on a text longer than 8 characters), passages and
  stores to run the index on, and names for the parts of the statements below.
\<close>

definition mk_passage :: "nat \<Rightarrow> string \<Rightarrow> passage" where
  "mk_passage n s =
     \<lparr>id_key = n, text_key = ustr s,
      metadata = \<lparr>source = ''document'', chunk_id = n, page = 1, line = 1,
                  language = Some ''english''\<rparr>\<rparr>"

definition toy_encode :: encode where
  "toy_encode texts =
     (if list_ex (\<lambda>t. 8 < length t) texts then Inl EmbeddingError
      else Inr (map (\<lambda>t. [real (length t), real (sum_list t)]) texts))"

definition built_store :: vector_store where
  "built_store = fst (add_document toy_encode init
     [mk_passage 0 ''cats'', mk_passage 1 ''doggies'', mk_passage 2 ''ox''])"

definition failed_store :: vector_store where
  "failed_store = fst (add_document toy_encode built_store
     [mk_passage 0 ''hedgehogs'', mk_passage 1 ''zebra''])"

definition result_of :: "passage list \<Rightarrow> real \<times> int \<Rightarrow> search_result" where
  "result_of cs hit =
     \<lparr>chunk = text_key (cs ! nat (snd hit)), result_metadata = metadata (cs ! nat (snd hit)),
      score = fst hit\<rparr>"

definition in_range :: "passage list \<Rightarrow> real \<times> int \<Rightarrow> bool" where
  "in_range cs hit \<longleftrightarrow> 0 \<le> snd hit \<and> snd hit < int (length cs)"

definition results_of :: "log_record list \<times> (error + search_result list) \<Rightarrow> search_result list" where
  "results_of out = (case snd out of Inr rs \<Rightarrow> rs | Inl _ \<Rightarrow> [])"

definition page_one_text :: ustring where
  "page_one_text = ustr ''Line one.'' @ [NL, NL] @ ustr ''Line two.''"

definition page_two_text :: ustring where
  "page_two_text = ustr ''Line three.''"

definition form_feed_text :: ustring where
  "form_feed_text = ustr ''Page one.'' @ [FF] @ ustr ''Page two.''"

definition mixed_text :: ustring where
  "mixed_text = replicate 500 0x61 @ replicate 1500 0x628"

definition english_passage :: "nat \<Rightarrow> ustring \<Rightarrow> nat \<Rightarrow> nat \<Rightarrow> passage" where
  "english_passage n t pg lnum =
     \<lparr>id_key = n, text_key = t,
      metadata = \<lparr>source = ''document'', chunk_id = n, page = pg, line = lnum,
                  language = Some ''english''\<rparr>\<rparr>"

definition sample_text :: ustring where
  "sample_text = ustr ''a   b'' @ [NL, NL, NL, NL] @ [0x623, SP, SP, 0xFEFB]"

section \<open>Properties\<close>

subsection \<open>Runs of spaces and newlines\<close>


lemma takeWhile_eq_replicate: "takeWhile (\<lambda>d. d = c) cs = replicate (length (takeWhile (\<lambda>d. d = c) cs)) c"
  by (induction cs) auto

lemma ungroup_groups: "ungroup (groups s) = s"
proof (induction s rule: groups.induct)
  case 1
  show ?case by (simp add: ungroup_def)
next
  case (2 c cs)
  have "replicate (length (takeWhile (\<lambda>d. d = c) cs)) c @ dropWhile (\<lambda>d. d = c) cs = cs"
    using takeWhile_eq_replicate[of c cs] takeWhile_dropWhile_id[of "\<lambda>d. d = c" cs] by simp
  with 2 show ?case by (simp add: ungroup_def)
qed

lemma groups_hd: "groups s = (d, n) # gs \<Longrightarrow> s \<noteq> [] \<and> hd s = d"
  by (cases s) auto

lemma wf_groups_groups: "wf_groups (groups s)"
proof (induction s rule: groups.induct)
  case 1
  show ?case by simp
next
  case (2 c cs)
  have "case groups (dropWhile (\<lambda>d. d = c) cs) of [] \<Rightarrow> True | (d, _) # _ \<Rightarrow> d \<noteq> c"
  proof (cases "groups (dropWhile (\<lambda>d. d = c) cs)")
    case Nil
    then show ?thesis by simp
  next
    case (Cons g gs)
    obtain d n where g: "g = (d, n)" by (cases g)
    from Cons g have "dropWhile (\<lambda>d. d = c) cs \<noteq> [] \<and> hd (dropWhile (\<lambda>d. d = c) cs) = d"
      using groups_hd by blast
    then have "d \<noteq> c" using hd_dropWhile[of "\<lambda>d. d = c" cs] by auto
    with Cons g show ?thesis by simp
  qed
  with 2 show ?case by simp
qed

lemma ungroup_Cons: "ungroup ((c, n) # gs) = replicate n c @ ungroup gs"
  by (simp add: ungroup_def)

lemma ungroup_Nil: "ungroup [] = []"
  by (simp add: ungroup_def)

lemma wf_ungroup_hd:
  "wf_groups ((c, n) # gs) \<Longrightarrow> ungroup gs = [] \<or> hd (ungroup gs) \<noteq> c"
proof (cases gs)
  case Nil
  then show ?thesis by (simp add: ungroup_Nil)
next
  case (Cons g gs')
  assume wf: "wf_groups ((c, n) # gs)"
  obtain d m where g: "g = (d, m)" by (cases g)
  with wf Cons have "d \<noteq> c" "0 < m" by auto
  then have "hd (ungroup gs) = d" using Cons g by (cases m) (auto simp: ungroup_Cons)
  with \<open>d \<noteq> c\<close> show ?thesis by simp
qed

lemma dropWhile_replicate_app:
  "ys = [] \<or> hd ys \<noteq> c \<Longrightarrow> dropWhile (\<lambda>d. d = c) (replicate n c @ ys) = ys"
  by (induction n) (cases ys; auto)+

lemma takeWhile_replicate_app:
  "ys = [] \<or> hd ys \<noteq> c \<Longrightarrow> takeWhile (\<lambda>d. d = c) (replicate n c @ ys) = replicate n c"
  by (induction n) (cases ys; auto)+

lemma sub_spaces_other_run:
  "c \<noteq> SP \<Longrightarrow> sub_spaces (replicate n c @ ys) = replicate n c @ sub_spaces ys"
  by (induction n) auto

lemma sub_newlines_other_run:
  "c \<noteq> NL \<Longrightarrow> sub_newlines (replicate n c @ ys) = replicate n c @ sub_newlines ys"
  by (induction n) auto

lemma collapse_space_group_simp:
  "collapse_space_group (c, n) = (if c = SP then (c, 1) else (c, n))"
  by (simp add: collapse_space_group_def)

lemma collapse_newline_group_simp:
  "collapse_newline_group (c, n) = (if c = NL \<and> 3 \<le> n then (c, 2) else (c, n))"
  by (simp add: collapse_newline_group_def)

lemma sub_spaces_ungroup:
  "wf_groups gs \<Longrightarrow> sub_spaces (ungroup gs) = ungroup (map collapse_space_group gs)"
proof (induction gs)
  case Nil
  show ?case by (simp add: ungroup_Nil)
next
  case (Cons g gs)
  obtain c n where g: "g = (c, n)" by (cases g)
  from Cons.prems g have wf: "wf_groups ((c, n) # gs)" and wf': "wf_groups gs" and n: "0 < n" by auto
  have IH: "sub_spaces (ungroup gs) = ungroup (map collapse_space_group gs)"
    using Cons.IH wf' by simp
  show ?case
  proof (cases "c = SP")
    case True
    obtain m where m: "n = Suc m" using n by (cases n) auto
    have "dropWhile (\<lambda>d. d = SP) (replicate m SP @ ungroup gs) = ungroup gs"
      using wf_ungroup_hd[OF wf] True dropWhile_replicate_app[of "ungroup gs" SP m] by simp
    then show ?thesis using True g m IH
      by (simp add: ungroup_Cons collapse_space_group_simp)
  next
    case False
    then show ?thesis using g IH
      by (simp add: ungroup_Cons collapse_space_group_simp sub_spaces_other_run)
  qed
qed

lemma sub_newlines_ungroup:
  "wf_groups gs \<Longrightarrow> sub_newlines (ungroup gs) = ungroup (map collapse_newline_group gs)"
proof (induction gs)
  case Nil
  show ?case by (simp add: ungroup_Nil)
next
  case (Cons g gs)
  obtain c n where g: "g = (c, n)" by (cases g)
  from Cons.prems g have wf: "wf_groups ((c, n) # gs)" and wf': "wf_groups gs" and n: "0 < n" by auto
  have IH: "sub_newlines (ungroup gs) = ungroup (map collapse_newline_group gs)"
    using Cons.IH wf' by simp
  show ?case
  proof (cases "c = NL")
    case True
    obtain m where m: "n = Suc m" using n by (cases n) auto
    have hd: "ungroup gs = [] \<or> hd (ungroup gs) \<noteq> NL"
      using wf_ungroup_hd[OF wf] True by simp
    have d: "dropWhile (\<lambda>d. d = NL) (replicate m NL @ ungroup gs) = ungroup gs"
      using hd dropWhile_replicate_app[of "ungroup gs" NL m] by simp
    have t: "takeWhile (\<lambda>d. d = NL) (replicate m NL @ ungroup gs) = replicate m NL"
      using hd takeWhile_replicate_app[of "ungroup gs" NL m] by simp
    have "sub_newlines (NL # replicate m NL @ ungroup gs) =
          (if 2 \<le> m then [NL, NL] else NL # replicate m NL) @ sub_newlines (ungroup gs)"
      using d t by simp
    moreover have "ungroup (map collapse_newline_group ((c, n) # gs)) =
          (if 2 \<le> m then [NL, NL] else NL # replicate m NL) @ ungroup (map collapse_newline_group gs)"
      using True m by (simp add: ungroup_Cons collapse_newline_group_simp numeral_2_eq_2)
    ultimately show ?thesis using True g m IH by (simp add: ungroup_Cons)
  next
    case False
    then show ?thesis using g IH
      by (simp add: ungroup_Cons collapse_newline_group_simp sub_newlines_other_run)
  qed
qed

lemma wf_groups_map:
  assumes "\<And>c n. 0 < n \<Longrightarrow> fst (f (c, n)) = c \<and> 0 < snd (f (c, n))"
  shows "wf_groups gs \<Longrightarrow> wf_groups (map f gs)"
proof (induction gs rule: wf_groups.induct)
  case 1
  show ?case by simp
next
  case (2 c n gs)
  obtain c' n' where f: "f (c, n) = (c', n')" by (cases "f (c, n)")
  from 2 have n: "0 < n" by simp
  from assms[of n c] n f have c': "c' = c" and n': "0 < n'" by auto
  show ?case
  proof (cases gs)
    case Nil
    then show ?thesis using f c' n' by simp
  next
    case (Cons h hs)
    obtain d m where h: "h = (d, m)" by (cases h)
    obtain d' m' where fh: "f (d, m) = (d', m')" by (cases "f (d, m)")
    from 2 Cons h have "0 < m" "d \<noteq> c" by auto
    with assms[of m d] fh have "d' \<noteq> c" by auto
    moreover have "wf_groups (map f gs)" using 2 by simp
    ultimately show ?thesis using Cons h fh f c' n' by simp
  qed
qed

lemma sub_ws_groups:
  "sub_newlines (sub_spaces s) = collapse_runs_spec s"
proof -
  have wf: "wf_groups (map collapse_space_group (groups s))"
    by (rule wf_groups_map) (auto simp: collapse_space_group_def wf_groups_groups)
  have "sub_spaces s = ungroup (map collapse_space_group (groups s))"
    using sub_spaces_ungroup[OF wf_groups_groups, of s] by (simp add: ungroup_groups)
  then have "sub_newlines (sub_spaces s) =
             ungroup (map collapse_newline_group (map collapse_space_group (groups s)))"
    using sub_newlines_ungroup[OF wf] by simp
  moreover have "collapse_newline_group \<circ> collapse_space_group = collapse_group"
    by (auto simp: fun_eq_iff collapse_newline_group_def collapse_space_group_def collapse_group_def)
  ultimately show ?thesis by (simp add: collapse_runs_spec_def)
qed

subsection \<open>The Arabic table commutes with the whitespace rules\<close>

lemma dropWhile_twice_Nil:
  "dropWhile P (rev (dropWhile P s)) = [] \<longleftrightarrow> (\<forall>x\<in>set s. P x)"
proof
  assume a: "dropWhile P (rev (dropWhile P s)) = []"
  have all: "\<forall>x\<in>set (dropWhile P s). P x"
    using a unfolding dropWhile_eq_Nil_conv by simp
  have "dropWhile P s = []"
  proof (rule ccontr)
    assume ne: "dropWhile P s \<noteq> []"
    then have "\<not> P (hd (dropWhile P s))" by (rule hd_dropWhile)
    moreover have "hd (dropWhile P s) \<in> set (dropWhile P s)" using ne by (rule hd_in_set)
    ultimately show False using all by blast
  qed
  then show "\<forall>x\<in>set s. P x" unfolding dropWhile_eq_Nil_conv .
next
  assume "\<forall>x\<in>set s. P x"
  then have "dropWhile P s = []" unfolding dropWhile_eq_Nil_conv .
  then show "dropWhile P (rev (dropWhile P s)) = []" by (simp del: dropWhile_eq_Nil_conv)
qed

lemma strip_Nil_iff: "strip s = [] \<longleftrightarrow> whitespace_only s"
  unfolding strip_def whitespace_only_def rev_is_Nil_conv by (rule dropWhile_twice_Nil)

lemma fix_arabic_text_unfold:
  "fix_arabic_text s = (if whitespace_only s then [] else arabic_table (sub_newlines (sub_spaces s)))"
  by (auto simp: fix_arabic_text_def arabic_table_def strip_Nil_iff Let_def whitespace_only_def)

lemma replace_char_Nil: "replace_char old new [] = []"
  by (simp add: replace_char_def)

lemma replace_char_Cons:
  "replace_char old new (c # cs) = (if c = old then new else [c]) @ replace_char old new cs"
  by (simp add: replace_char_def)

lemma replace_char_append:
  "replace_char old new (xs @ ys) = replace_char old new xs @ replace_char old new ys"
  by (simp add: replace_char_def)

lemma arabic_table_Nil: "arabic_table [] = []"
  by (simp add: arabic_table_def replacements_def replace_char_Nil)

lemma arabic_table_append: "arabic_table (xs @ ys) = arabic_table xs @ arabic_table ys"
  by (simp add: arabic_table_def replacements_def replace_char_append)

lemma arabic_table_single:
  "arabic_table [c] =
     (if c = 0xFEFB then [0x644, 0x627]
      else if c = 0x623 \<or> c = 0x625 \<or> c = 0x622 then [0x627]
      else if c = 0x649 then [0x64A]
      else if c = 0x629 then [0x647]
      else [c])"
  by (simp add: arabic_table_def replacements_def replace_char_def)

lemma arabic_table_Cons: "arabic_table (c # cs) = arabic_table [c] @ arabic_table cs"
  using arabic_table_append[of "[c]" cs] by simp

lemma arabic_table_pair: "arabic_table [c, d] = arabic_table [c] @ arabic_table [d]"
  by (rule arabic_table_Cons)

lemma arabic_table_single_idem: "arabic_table (arabic_table [c]) = arabic_table [c]"
  by (simp add: arabic_table_single arabic_table_pair)

lemma arabic_table_idem: "arabic_table (arabic_table s) = arabic_table s"
proof (induction s)
  case Nil
  show ?case by (simp add: arabic_table_Nil)
next
  case (Cons c cs)
  have "arabic_table (arabic_table (c # cs)) = arabic_table (arabic_table [c]) @ arabic_table (arabic_table cs)"
    by (subst arabic_table_Cons) (simp only: arabic_table_append)
  also have "\<dots> = arabic_table [c] @ arabic_table cs"
    by (simp only: arabic_table_single_idem Cons.IH)
  also have "\<dots> = arabic_table (c # cs)"
    by (rule arabic_table_Cons[symmetric])
  finally show ?case .
qed

lemma arabic_table_single_keep:
  "a = SP \<or> a = NL \<Longrightarrow> arabic_table [a] = [a]"
  by (auto simp: arabic_table_single)

lemma arabic_table_single_other:
  "c \<noteq> a \<Longrightarrow> a = SP \<or> a = NL \<Longrightarrow> arabic_table [c] \<noteq> [] \<and> a \<notin> set (arabic_table [c])"
  by (auto simp: arabic_table_single)

lemma dropWhile_arabic_table:
  assumes a: "a = SP \<or> a = NL"
  shows "dropWhile (\<lambda>d. d = a) (arabic_table cs) = arabic_table (dropWhile (\<lambda>d. d = a) cs)"
proof (induction cs)
  case Nil
  show ?case by (simp add: arabic_table_Nil)
next
  case (Cons c cs)
  show ?case
  proof (cases "c = a")
    case True
    then show ?thesis using Cons arabic_table_single_keep[OF a]
      by (simp add: arabic_table_Cons[of a cs])
  next
    case False
    from arabic_table_single_other[OF False a]
    have ne: "arabic_table [c] \<noteq> []" and notin: "a \<notin> set (arabic_table [c])" by auto
    then have "hd (arabic_table [c]) \<noteq> a" by (cases "arabic_table [c]") auto
    then have "dropWhile (\<lambda>d. d = a) (arabic_table [c] @ arabic_table cs) = arabic_table [c] @ arabic_table cs"
      using ne by (cases "arabic_table [c]") auto
    then show ?thesis using False by (simp add: arabic_table_Cons[of c cs])
  qed
qed

lemma takeWhile_arabic_table:
  assumes a: "a = SP \<or> a = NL"
  shows "takeWhile (\<lambda>d. d = a) (arabic_table cs) = takeWhile (\<lambda>d. d = a) cs"
proof (induction cs)
  case Nil
  show ?case by (simp add: arabic_table_Nil)
next
  case (Cons c cs)
  show ?case
  proof (cases "c = a")
    case True
    then show ?thesis using Cons arabic_table_single_keep[OF a]
      by (simp add: arabic_table_Cons[of a cs])
  next
    case False
    from arabic_table_single_other[OF False a]
    have ne: "arabic_table [c] \<noteq> []" and notin: "a \<notin> set (arabic_table [c])" by auto
    then have "takeWhile (\<lambda>d. d = a) (arabic_table [c] @ arabic_table cs) = []"
      by (cases "arabic_table [c]") auto
    then show ?thesis using False by (simp add: arabic_table_Cons[of c cs])
  qed
qed

lemma sub_spaces_arabic_table: "sub_spaces (arabic_table s) = arabic_table (sub_spaces s)"
proof (induction s rule: sub_spaces.induct)
  case 1
  show ?case by (simp add: arabic_table_Nil)
next
  case (2 c cs)
  show ?case
  proof (cases "c = SP")
    case True
    have "sub_spaces (arabic_table (SP # cs)) = sub_spaces (SP # arabic_table cs)"
      using arabic_table_single_keep[of SP] by (simp add: arabic_table_Cons[of SP cs])
    also have "\<dots> = SP # sub_spaces (arabic_table (dropWhile (\<lambda>d. d = SP) cs))"
      using dropWhile_arabic_table[of SP cs] by simp
    also have "\<dots> = SP # arabic_table (sub_spaces (dropWhile (\<lambda>d. d = SP) cs))"
      using 2 True by simp
    also have "\<dots> = arabic_table (sub_spaces (SP # cs))"
      using arabic_table_single_keep[of SP]
      by (simp add: arabic_table_Cons[of SP "sub_spaces (dropWhile (\<lambda>d. d = SP) cs)"])
    finally show ?thesis using True by simp
  next
    case False
    from arabic_table_single_other[OF False]
    have notin: "SP \<notin> set (arabic_table [c])" by auto
    have pre: "\<And>xs ys. SP \<notin> set xs \<Longrightarrow> sub_spaces (xs @ ys) = xs @ sub_spaces ys"
    proof -
      fix xs ys :: ustring
      show "SP \<notin> set xs \<Longrightarrow> sub_spaces (xs @ ys) = xs @ sub_spaces ys"
        by (induction xs) auto
    qed
    have "sub_spaces (arabic_table (c # cs)) = arabic_table [c] @ sub_spaces (arabic_table cs)"
      using pre[OF notin] by (simp add: arabic_table_Cons[of c cs])
    also have "\<dots> = arabic_table [c] @ arabic_table (sub_spaces cs)"
      using 2 False by simp
    also have "\<dots> = arabic_table (sub_spaces (c # cs))"
      using False by (simp add: arabic_table_Cons[of c "sub_spaces cs"])
    finally show ?thesis .
  qed
qed

lemma sub_newlines_arabic_table: "sub_newlines (arabic_table s) = arabic_table (sub_newlines s)"
proof (induction s rule: sub_newlines.induct)
  case 1
  show ?case by (simp add: arabic_table_Nil)
next
  case (2 c cs)
  show ?case
  proof (cases "c = NL")
    case True
    let ?run = "takeWhile (\<lambda>d. d = NL) cs"
    let ?rest = "dropWhile (\<lambda>d. d = NL) cs"
    have IH: "sub_newlines (arabic_table ?rest) = arabic_table (sub_newlines ?rest)"
      using 2 True by simp
    have run: "arabic_table ?run = ?run"
    proof -
      have "\<And>xs. \<forall>x\<in>set xs. x = NL \<Longrightarrow> arabic_table xs = xs"
      proof -
        fix xs :: ustring
        show "\<forall>x\<in>set xs. x = NL \<Longrightarrow> arabic_table xs = xs"
        proof (induction xs)
          case Nil
          show ?case by (simp add: arabic_table_Nil)
        next
          case (Cons x xs)
          then show ?case using arabic_table_single_keep[of NL]
            by (simp add: arabic_table_Cons[of NL xs])
        qed
      qed
      moreover have "\<forall>x\<in>set ?run. x = NL" by (auto dest: set_takeWhileD)
      ultimately show ?thesis by blast
    qed
    let ?blk = "(if 3 \<le> Suc (length ?run) then [NL, NL] else NL # ?run)"
    have "arabic_table (NL # ?run) = NL # ?run"
      using arabic_table_Cons[of NL ?run] arabic_table_single_keep[of NL] run by simp
    moreover have "arabic_table [NL, NL] = [NL, NL]"
      using arabic_table_pair[of NL NL] arabic_table_single_keep[of NL] by simp
    ultimately have blk: "arabic_table ?blk = ?blk"
      by simp
    have "sub_newlines (arabic_table (NL # cs)) = sub_newlines (NL # arabic_table cs)"
      using arabic_table_single_keep[of NL] by (simp add: arabic_table_Cons[of NL cs])
    also have "\<dots> = ?blk @ sub_newlines (arabic_table ?rest)"
      using dropWhile_arabic_table[of NL cs] takeWhile_arabic_table[of NL cs]
      by simp
    also have "\<dots> = ?blk @ arabic_table (sub_newlines ?rest)"
      using IH by simp
    also have "\<dots> = arabic_table (?blk @ sub_newlines ?rest)"
      by (simp only: arabic_table_append blk)
    also have "\<dots> = arabic_table (sub_newlines (NL # cs))"
      by simp
    finally show ?thesis using True by simp
  next
    case False
    from arabic_table_single_other[OF False]
    have notin: "NL \<notin> set (arabic_table [c])" by auto
    have pre: "\<And>xs ys. NL \<notin> set xs \<Longrightarrow> sub_newlines (xs @ ys) = xs @ sub_newlines ys"
    proof -
      fix xs ys :: ustring
      show "NL \<notin> set xs \<Longrightarrow> sub_newlines (xs @ ys) = xs @ sub_newlines ys"
        by (induction xs) auto
    qed
    have "sub_newlines (arabic_table (c # cs)) = arabic_table [c] @ sub_newlines (arabic_table cs)"
      using pre[OF notin] by (simp add: arabic_table_Cons[of c cs])
    also have "\<dots> = arabic_table [c] @ arabic_table (sub_newlines cs)"
      using 2 False by simp
    also have "\<dots> = arabic_table (sub_newlines (c # cs))"
      using False by (simp add: arabic_table_Cons[of c "sub_newlines cs"])
    finally show ?thesis .
  qed
qed

lemma collapse_group_idem: "collapse_group (collapse_group g) = collapse_group g"
  by (cases g) (auto simp: collapse_group_def)

lemma collapse_runs_spec_idem: "collapse_runs_spec (collapse_runs_spec s) = collapse_runs_spec s"
proof -
  let ?gs = "map collapse_group (groups s)"
  have wf: "wf_groups ?gs"
    by (rule wf_groups_map) (auto simp: collapse_group_def wf_groups_groups)
  have wf1: "wf_groups (map collapse_space_group ?gs)"
    by (rule wf_groups_map) (auto simp: collapse_space_group_def wf)
  have "collapse_runs_spec (ungroup ?gs) = sub_newlines (sub_spaces (ungroup ?gs))"
    by (simp add: sub_ws_groups)
  also have "\<dots> = ungroup (map collapse_newline_group (map collapse_space_group ?gs))"
    using sub_spaces_ungroup[OF wf] sub_newlines_ungroup[OF wf1] by simp
  also have "\<dots> = ungroup (map (collapse_group \<circ> collapse_group) (groups s))"
  proof -
    have "collapse_newline_group \<circ> collapse_space_group = collapse_group"
      by (auto simp: fun_eq_iff collapse_newline_group_def collapse_space_group_def collapse_group_def)
    then have e: "map collapse_newline_group (map collapse_space_group ?gs) = map collapse_group ?gs"
      by (metis map_map)
    show ?thesis by (subst e) (simp only: map_map)
  qed
  also have "\<dots> = ungroup ?gs"
    by (simp add: collapse_group_idem comp_def)
  finally show ?thesis by (simp add: collapse_runs_spec_def)
qed

lemma set_sub_spaces: "set (sub_spaces s) = set s"
proof (induction s rule: sub_spaces.induct)
  case 1
  show ?case by simp
next
  case (2 c cs)
  have "set cs \<subseteq> insert SP (set (dropWhile (\<lambda>d. d = SP) cs))"
  proof
    fix x assume "x \<in> set cs"
    then have "x \<in> set (takeWhile (\<lambda>d. d = SP) cs) \<or> x \<in> set (dropWhile (\<lambda>d. d = SP) cs)"
      by (metis Un_iff set_append takeWhile_dropWhile_id)
    then show "x \<in> insert SP (set (dropWhile (\<lambda>d. d = SP) cs))"
      by (auto dest: set_takeWhileD)
  qed
  moreover have "set (dropWhile (\<lambda>d. d = SP) cs) \<subseteq> set cs"
    by (auto dest: set_dropWhileD)
  ultimately show ?case using 2 by auto
qed

lemma set_sub_newlines: "set (sub_newlines s) = set s"
proof (induction s rule: sub_newlines.induct)
  case 1
  show ?case by simp
next
  case (2 c cs)
  have split: "set cs = set (takeWhile (\<lambda>d. d = NL) cs) \<union> set (dropWhile (\<lambda>d. d = NL) cs)"
    by (metis set_append takeWhile_dropWhile_id)
  have run: "set (takeWhile (\<lambda>d. d = NL) cs) \<subseteq> {NL}"
    by (auto dest: set_takeWhileD)
  show ?case
  proof (cases "c = NL")
    case True
    then have IH: "set (sub_newlines (dropWhile (\<lambda>d. d = NL) cs)) = set (dropWhile (\<lambda>d. d = NL) cs)"
      using 2 by simp
    show ?thesis using True IH split run by auto
  next
    case False
    then show ?thesis using 2 by simp
  qed
qed

lemma whitespace_only_arabic_table: "whitespace_only (arabic_table s) \<longleftrightarrow> whitespace_only s"
proof (induction s)
  case Nil
  show ?case by (simp add: arabic_table_Nil)
next
  case (Cons c cs)
  have "(\<forall>x\<in>set (arabic_table [c]). py_isspace x) \<longleftrightarrow> py_isspace c"
    by (auto simp: arabic_table_single py_isspace_def)
  with Cons show ?case
    by (simp add: arabic_table_Cons[of c cs] whitespace_only_def ball_Un)
qed

text \<open>
  Claim C8: normalisation is idempotent.
\<close>

theorem fix_arabic_text_idem: "fix_arabic_text (fix_arabic_text x) = fix_arabic_text x"
proof (cases "whitespace_only x")
  case True
  then show ?thesis by (simp add: fix_arabic_text_unfold whitespace_only_def)
next
  case False
  let ?w = "sub_newlines (sub_spaces x)"
  have "whitespace_only ?w \<longleftrightarrow> whitespace_only x"
    by (simp add: whitespace_only_def set_sub_newlines set_sub_spaces)
  with False have nw: "\<not> whitespace_only (arabic_table ?w)"
    unfolding whitespace_only_arabic_table by blast
  have "sub_newlines (sub_spaces (arabic_table ?w)) = arabic_table (sub_newlines (sub_spaces ?w))"
    by (simp add: sub_spaces_arabic_table sub_newlines_arabic_table)
  also have "sub_newlines (sub_spaces ?w) = ?w"
    using collapse_runs_spec_idem[of x] by (simp add: sub_ws_groups)
  finally have "arabic_table (sub_newlines (sub_spaces (arabic_table ?w))) = arabic_table ?w"
    by (simp add: arabic_table_idem)
  then show ?thesis using False nw by (simp add: fix_arabic_text_unfold)
qed

subsection \<open>The index\<close>

lemma results_loop_filter:
  "results_loop cs row = map (result_of cs) (filter (in_range cs) row)"
proof (induction cs row rule: results_loop.induct)
  case (1 cs)
  show ?case by simp
next
  case (2 cs distance idx rest)
  then show ?case by (auto simp: result_of_def in_range_def)
qed

lemma results_loop_in_bounds:
  assumes "r \<in> set (results_loop cs row)"
  shows "\<exists>i<length cs. chunk r = text_key (cs ! i) \<and> result_metadata r = metadata (cs ! i)"
proof -
  from assms obtain hit where hit: "hit \<in> set row" "in_range cs hit" "r = result_of cs hit"
    by (auto simp: results_loop_filter)
  then have "nat (snd hit) < length cs" by (auto simp: in_range_def)
  with hit(3) show ?thesis by (auto simp: result_of_def)
qed

lemma search_cases:
  "search enc s q k = ([NoIndexAvailable], Inr []) \<or>
   search enc s q k = ([NoChunksAvailable], Inr []) \<or>
   (\<exists>e. search enc s q k = ([ErrorDuringSearch e], Inr [])) \<or>
   (\<exists>ix lg rs. index s = Some ix \<and> chunks s \<noteq> [] \<and>
       search_try enc ix (chunks s) q k = Inr (lg, rs) \<and> search enc s q k = (lg, Inr rs))"
  by (auto simp: search_def split: option.splits sum.splits)

lemma search_try_results:
  assumes "search_try enc ix cs q k = Inr (lg, rs)"
  shows "\<exists>row. rs = results_loop cs row"
  using assms
  by (auto simp: search_try_def Let_def split: sum.splits list.splits)

lemma search_try_knn:
  assumes "enc [q] = Inr [qv]" and "length qv = dims ix" and "0 < k"
  shows "\<exists>lg. search_try enc ix cs q k = Inr (lg, results_loop cs (knn ix qv (nat k)))"
  using assms by (simp add: search_try_def index_search_def Let_def)

lemma length_knn: "length (knn ix q k) = k"
  by (simp add: knn_def Let_def)

lemma scored_labels:
  "(dv, i) \<in> set (map (\<lambda>(i, v). (l2_sqr q v, int i)) (enumerate 0 vs)) \<Longrightarrow> 0 \<le> i \<and> i < int (length vs)"
  by (auto simp: in_set_enumerate_eq)

lemma filter_in_range_knn:
  assumes "length (vectors ix) = length cs"
  shows "filter (in_range cs) (knn ix q k) =
         take k (sort_key fst (map (\<lambda>(i, v). (l2_sqr q v, int i)) (enumerate 0 (vectors ix))))"
proof -
  let ?scored = "map (\<lambda>(i, v). (l2_sqr q v, int i)) (enumerate 0 (vectors ix))"
  let ?top = "take k (sort_key fst ?scored)"
  have "\<forall>hit\<in>set ?top. in_range cs hit"
  proof
    fix hit assume "hit \<in> set ?top"
    then have "hit \<in> set ?scored" by (auto dest: in_set_takeD)
    then show "in_range cs hit" using scored_labels[of "fst hit" "snd hit" q "vectors ix"] assms
      by (simp add: in_range_def)
  qed
  then have "filter (in_range cs) ?top = ?top" by (simp add: filter_id_conv)
  moreover have "filter (in_range cs) (replicate (k - length ?top) (FLT_MAX, - 1)) = []"
    by (simp add: in_range_def)
  ultimately show ?thesis by (simp add: knn_def Let_def)
qed

lemma add_document_chunks: "chunks (fst (add_document enc s cs)) = cs"
  by (auto simp: add_document_def Let_def split: sum.splits)

lemma add_document_built:
  assumes "add_document enc s cs = (s', lg, Inr m)" and "cs \<noteq> []"
  shows "\<exists>embs. enc (map text_key cs) = Inr embs \<and>
           s' = \<lparr>index = Some \<lparr>dims = dimension s', vectors = embs\<rparr>, chunks = cs, dimension = dimension s'\<rparr> \<and>
           m = length cs"
  using assms
  by (auto simp: add_document_def Let_def index_add_def IndexFlatL2_def split: sum.splits if_splits)

lemma add_document_failed:
  assumes "enc (map text_key cs) = Inl e"
  shows "add_document enc s cs =
           (if cs = [] then (s\<lparr>chunks := cs\<rparr>, [AddingChunks 0, NoTextsToEmbed], Inr 0)
            else (s\<lparr>chunks := cs\<rparr>, [AddingChunks (length cs), ErrorCreatingVectorStore e], Inl e))"
  using assms by (simp add: add_document_def Let_def)

text \<open>
  Claim C5: after a successful build over the passages cs, with an embedding function
  that returns one vector per text, a query whose embedding succeeds with the dimension
  of the index, and k at least 1, search returns exactly min k (length cs) results, their
  scores are non-decreasing, and every result is a passage of cs (no hit with the label
  -1 or any other invalid label surfaces).
\<close>

theorem search_built:
  assumes build: "add_document enc s cs = (s', lg, Inr m)"
      and one_per_text: "\<forall>ts vs. enc ts = Inr vs \<longrightarrow> length vs = length ts"
      and query: "enc [q] = Inr [qv]" and dim_q: "length qv = dimension s'"
      and k: "1 \<le> k"
  shows "\<exists>lg' rs. search enc s' q k = (lg', Inr rs) \<and>
           length rs = min (nat k) (length cs) \<and>
           sorted (map score rs) \<and>
           (\<forall>r\<in>set rs. \<exists>i<length cs. chunk r = text_key (cs ! i) \<and> result_metadata r = metadata (cs ! i))"
proof (cases "cs = []")
  case True
  have "chunks s' = []" using add_document_chunks[of enc s cs] build True by simp
  then have "search enc s' q k = ([NoIndexAvailable], Inr []) \<or> search enc s' q k = ([NoChunksAvailable], Inr [])"
    by (auto simp: search_def split: option.splits)
  then show ?thesis using True by auto
next
  case False
  from add_document_built[OF build False] obtain embs where
    embs: "enc (map text_key cs) = Inr embs" and
    s': "s' = \<lparr>index = Some \<lparr>dims = dimension s', vectors = embs\<rparr>, chunks = cs, dimension = dimension s'\<rparr>"
    by blast
  let ?ix = "\<lparr>dims = dimension s', vectors = embs\<rparr>"
  have len: "length (vectors ?ix) = length cs" using one_per_text embs by fastforce
  have ix: "index s' = Some ?ix" and cs: "chunks s' = cs" by (subst s', simp)+
  from search_try_knn[of enc q qv "?ix" k cs] query dim_q k obtain lg' where
    st: "search_try enc ?ix cs q k = Inr (lg', results_loop cs (knn ?ix qv (nat k)))" by auto
  let ?rs = "results_loop cs (knn ?ix qv (nat k))"
  let ?scored = "map (\<lambda>(i, v). (l2_sqr qv v, int i)) (enumerate 0 embs)"
  have srch: "search enc s' q k = (lg', Inr ?rs)"
    using ix cs False st by (simp add: search_def)
  have rs: "?rs = map (result_of cs) (take (nat k) (sort_key fst ?scored))"
    using filter_in_range_knn[OF len, of qv "nat k"] by (simp add: results_loop_filter)
  have "length ?rs = min (nat k) (length cs)"
    using len by (simp add: rs min.commute)
  moreover have "sorted (map score ?rs)"
  proof -
    have "map score ?rs = take (nat k) (map fst (sort_key fst ?scored))"
      by (simp add: rs result_of_def comp_def take_map)
    moreover have "sorted (map fst (sort_key fst ?scored))" by (rule sorted_sort_key)
    ultimately show ?thesis by (simp add: sorted_wrt_take)
  qed
  moreover have "\<forall>r\<in>set ?rs. \<exists>i<length cs. chunk r = text_key (cs ! i) \<and> result_metadata r = metadata (cs ! i)"
    using results_loop_in_bounds by blast
  ultimately show ?thesis using srch by blast
qed

text \<open>
  Claim C6: search never raises. It returns the empty sequence when the store has no
  index or no passages, and when the try block fails (embedding or index) it returns the
  empty sequence and logs one record of level ERROR.
\<close>

theorem search_never_raises:
  "(\<exists>lg rs. search enc s q k = (lg, Inr rs)) \<and>
   (index s = None \<or> chunks s = [] \<longrightarrow> snd (search enc s q k) = Inr []) \<and>
   (\<forall>ix e. index s = Some ix \<and> chunks s \<noteq> [] \<and> search_try enc ix (chunks s) q k = Inl e \<longrightarrow>
        search enc s q k = ([ErrorDuringSearch e], Inr []) \<and> levelname (ErrorDuringSearch e) = ERROR)"
proof -
  have "\<exists>lg rs. search enc s q k = (lg, Inr rs)"
    using search_cases[of enc s q k] by blast
  moreover have "index s = None \<or> chunks s = [] \<longrightarrow> snd (search enc s q k) = Inr []"
    by (auto simp: search_def split: option.splits)
  moreover have "\<forall>ix e. index s = Some ix \<and> chunks s \<noteq> [] \<and> search_try enc ix (chunks s) q k = Inl e \<longrightarrow>
        search enc s q k = ([ErrorDuringSearch e], Inr []) \<and> levelname (ErrorDuringSearch e) = ERROR"
    by (simp add: search_def)
  ultimately show ?thesis by blast
qed

text \<open>
  Claim C10: in every state of the store, also when the index and the passage list have
  different lengths, every result of search is the passage at an index below the number
  of stored passages; and when the query can be embedded the results are exactly the hits
  of the index whose label is in range, in the order of the hits: the others are dropped.
\<close>

theorem search_in_bounds:
  "(\<forall>r\<in>set (results_of (search enc s q k)).
      \<exists>i<length (chunks s). chunk r = text_key (chunks s ! i) \<and> result_metadata r = metadata (chunks s ! i)) \<and>
   (\<forall>ix qv. index s = Some ix \<and> chunks s \<noteq> [] \<and> enc [q] = Inr [qv] \<and> length qv = dims ix \<and> 0 < k \<longrightarrow>
      results_of (search enc s q k) =
        map (result_of (chunks s)) (filter (in_range (chunks s)) (knn ix qv (nat k))))"
proof -
  have "\<forall>r\<in>set (results_of (search enc s q k)).
      \<exists>i<length (chunks s). chunk r = text_key (chunks s ! i) \<and> result_metadata r = metadata (chunks s ! i)"
  proof
    fix r assume r: "r \<in> set (results_of (search enc s q k))"
    from search_cases[of enc s q k] r obtain ix lg rs where
      "search_try enc ix (chunks s) q k = Inr (lg, rs)" "search enc s q k = (lg, Inr rs)"
      by (auto simp: results_of_def)
    with r search_try_results[of enc ix "chunks s" q k lg rs] results_loop_in_bounds[of r "chunks s"]
    show "\<exists>i<length (chunks s). chunk r = text_key (chunks s ! i) \<and> result_metadata r = metadata (chunks s ! i)"
      by (auto simp: results_of_def)
  qed
  moreover have "\<forall>ix qv. index s = Some ix \<and> chunks s \<noteq> [] \<and> enc [q] = Inr [qv] \<and> length qv = dims ix \<and> 0 < k \<longrightarrow>
      results_of (search enc s q k) =
        map (result_of (chunks s)) (filter (in_range (chunks s)) (knn ix qv (nat k)))"
  proof (intro allI impI)
    fix ix qv
    assume a: "index s = Some ix \<and> chunks s \<noteq> [] \<and> enc [q] = Inr [qv] \<and> length qv = dims ix \<and> 0 < k"
    then obtain lg where "search_try enc ix (chunks s) q k = Inr (lg, results_loop (chunks s) (knn ix qv (nat k)))"
      using search_try_knn[of enc q qv ix k "chunks s"] by blast
    with a show "results_of (search enc s q k) =
        map (result_of (chunks s)) (filter (in_range (chunks s)) (knn ix qv (nat k)))"
      by (simp add: search_def results_of_def results_loop_filter)
  qed
  ultimately show ?thesis by blast
qed

text \<open>
  Claim C2, as the code has it: add_document with an empty passage list returns 0 and
  leaves the index and the dimension as they were, but it replaces the stored passage
  list by the empty list; every search afterwards returns the empty sequence.
\<close>

theorem add_document_empty:
  "add_document enc s [] = (s\<lparr>chunks := []\<rparr>, [AddingChunks 0, NoTextsToEmbed], Inr 0) \<and>
   index (s\<lparr>chunks := []\<rparr>) = index s \<and> dimension (s\<lparr>chunks := []\<rparr>) = dimension s \<and>
   snd (search enc (s\<lparr>chunks := []\<rparr>) q k) = Inr []"
  by (auto simp: add_document_def search_def split: option.splits)

subsection \<open>The chunker\<close>

lemmas eval_defs = chunk_document_def chunk_document_try_def scenario_text_def ustr_def strip_def
  py_isspace_def is_arabic_char_def blank_match_def last_index_def Let_def page_one_text_def
  page_two_text_def english_separators_def arabic_separators_def count_char_def english_passage_def
  fix_arabic_text_def replace_char_def replacements_def form_feed_text_def

lemma re_split_scenario: "re_split_pages scenario_text = [page_one_text, page_two_text]"
  by (simp add: eval_defs)

lemma fix_scenario:
  "fix_arabic_text scenario_text = ustr ''Line one.'' @ [NL, NL] @ ustr ''Line two.'' @ [NL, NL] @ ustr ''Line three.''"
  by (simp add: eval_defs)

text \<open>
  Claim C3, as the code has it: the three newlines of the scenario text are a page break
  for the pattern of line 188, so the text has two pages. With a splitter that returns
  each of the two short pages as one piece, chunk_document emits two passages, the
  first with page 1 and the second with page 2. After fix_arabic_text, which turns the
  three newlines into two, the same text is one page and gives exactly one passage with
  page 1.
\<close>

theorem scenario_two_pages:
  assumes "sd 500 100 english_separators page_one_text = Inr [page_one_text]"
      and "sd 500 100 english_separators page_two_text = Inr [page_two_text]"
      and "sd 500 100 english_separators (fix_arabic_text scenario_text) = Inr [fix_arabic_text scenario_text]"
  shows "chunk_document sd scenario_text =
           [english_passage 0 page_one_text 1 1, english_passage 1 page_two_text 2 1] \<and>
         chunk_document sd (fix_arabic_text scenario_text) =
           [english_passage 0 (fix_arabic_text scenario_text) 1 1]"
proof -
  have flag: "list_ex is_arabic_char (take 500 scenario_text) = False"
    by (simp add: eval_defs)
  have nonblank: "\<not> (scenario_text = [] \<or> length (strip scenario_text) = 0)"
    by (simp add: eval_defs)
  have p1: "strip page_one_text \<noteq> []" and p2: "strip page_two_text \<noteq> []"
    by (simp_all add: eval_defs)
  have noff: "FF \<notin> set scenario_text" by (simp add: eval_defs)
  have l1: "page_chunks_loop False 0 page_one_text 0 [page_one_text] = [english_passage 0 page_one_text 1 1]"
    by (simp add: eval_defs)
  have l2: "page_chunks_loop False 1 page_two_text 1 [page_two_text] = [english_passage 1 page_two_text 2 1]"
    by (simp add: eval_defs)
  have "chunk_document_try sd False scenario_text =
          Inr [english_passage 0 page_one_text 1 1, english_passage 1 page_two_text 2 1]"
    using assms(1,2) p1 p2 l1 l2
    by (simp add: chunk_document_try_def noff re_split_scenario Let_def)
  then have a: "chunk_document sd scenario_text =
           [english_passage 0 page_one_text 1 1, english_passage 1 page_two_text 2 1]"
    using flag nonblank by (simp add: chunk_document_def Let_def)
  let ?n = "fix_arabic_text scenario_text"
  have flagn: "list_ex is_arabic_char (take 500 ?n) = False"
    by (simp add: eval_defs)
  have nonblankn: "\<not> (?n = [] \<or> length (strip ?n) = 0)" and pn: "strip ?n \<noteq> []"
    by (simp_all add: eval_defs)
  have noffn: "FF \<notin> set ?n" by (simp add: eval_defs)
  have splitn: "re_split_pages ?n = [?n]" by (simp add: eval_defs)
  have lnn: "page_chunks_loop False 0 ?n 0 [?n] = [english_passage 0 ?n 1 1]"
    by (simp add: eval_defs)
  have "chunk_document_try sd False ?n = Inr [english_passage 0 ?n 1 1]"
    using assms(3) pn lnn
    by (simp add: chunk_document_try_def noffn splitn Let_def)
  then have b: "chunk_document sd ?n = [english_passage 0 ?n 1 1]"
    using flagn nonblankn by (simp add: chunk_document_def Let_def)
  from a b show ?thesis by blast
qed

text \<open>
  The hypotheses hold for the splitter that returns a short page as one piece.
\<close>

theorem scenario_two_pages_witness:
  "short_text_splitter 500 100 english_separators page_one_text = Inr [page_one_text] \<and>
   short_text_splitter 500 100 english_separators page_two_text = Inr [page_two_text] \<and>
   short_text_splitter 500 100 english_separators (fix_arabic_text scenario_text) = Inr [fix_arabic_text scenario_text] \<and>
   chunk_document short_text_splitter scenario_text =
           [english_passage 0 page_one_text 1 1, english_passage 1 page_two_text 2 1] \<and>
   chunk_document short_text_splitter (fix_arabic_text scenario_text) =
           [english_passage 0 (fix_arabic_text scenario_text) 1 1]"
proof -
  have h1: "short_text_splitter 500 100 english_separators page_one_text = Inr [page_one_text]"
    by (simp add: short_text_splitter_def page_one_text_def ustr_def strip_def py_isspace_def)
  have h2: "short_text_splitter 500 100 english_separators page_two_text = Inr [page_two_text]"
    by (simp add: short_text_splitter_def page_two_text_def ustr_def strip_def py_isspace_def)
  have h3: "short_text_splitter 500 100 english_separators (fix_arabic_text scenario_text) = Inr [fix_arabic_text scenario_text]"
    by (simp add: short_text_splitter_def fix_scenario ustr_def strip_def py_isspace_def)
  from scenario_two_pages[of short_text_splitter] h1 h2 h3 show ?thesis by blast
qed

text \<open>
  On the scenario text as given, chunk_document does not emit exactly one passage with
  page 1.
\<close>

theorem scenario_counterexample:
  "\<not> (length (chunk_document short_text_splitter scenario_text) = 1 \<and>
      page (metadata (hd (chunk_document short_text_splitter scenario_text))) = 1)"
  by (simp add: eval_defs short_text_splitter_def)

lemma page_chunks_loop_meta:
  "p \<in> set (page_chunks_loop ar pn pt n pcs) \<Longrightarrow>
     page (metadata p) = pn + 1 \<and>
     language (metadata p) = Some (if ar then ''arabic'' else ''english'')"
  by (induction pcs arbitrary: n) (auto simp: Let_def)

lemma pages_loop_language:
  "pages_loop ts ar pn n ps = Inr cs \<Longrightarrow> p \<in> set cs \<Longrightarrow>
     language (metadata p) = Some (if ar then ''arabic'' else ''english'')"
proof (induction ps arbitrary: pn n cs)
  case Nil
  then show ?case by simp
next
  case (Cons pt ps)
  show ?case
  proof (cases "strip pt = []")
    case True
    with Cons show ?thesis by simp
  next
    case False
    with Cons.prems(1) obtain pcs rest where
      "ts pt = Inr pcs" "pages_loop ts ar (pn + 1) (n + length pcs) ps = Inr rest"
      "cs = page_chunks_loop ar pn pt n pcs @ rest"
      by (auto split: sum.splits)
    with Cons.IH[of "pn + 1" "n + length pcs" rest] Cons.prems(2) page_chunks_loop_meta[of p ar pn pt n pcs]
    show ?thesis by auto
  qed
qed

lemma pages_loop_single_page:
  "pages_loop ts ar pn n [pt] = Inr cs \<Longrightarrow> p \<in> set cs \<Longrightarrow> page (metadata p) = pn + 1"
  using page_chunks_loop_meta[of p ar pn pt n]
  by (auto split: if_splits sum.splits)

lemma chunk_document_try_form_feed:
  "FF \<in> set text \<Longrightarrow>
     chunk_document_try sd ar text =
       pages_loop (if ar then sd 500 100 arabic_separators else sd 500 100 english_separators) ar 0 0 [text]"
  by (simp add: chunk_document_try_def Let_def)

lemma chunk_document_form_feed:
  assumes "FF \<in> set text" and "p \<in> set (chunk_document sd text)"
  shows "page (metadata p) = 1"
proof -
  let ?ar = "list_ex is_arabic_char (take 500 text)"
  let ?ts = "if ?ar then sd 500 100 arabic_separators else sd 500 100 english_separators"
  show ?thesis
  proof (cases "pages_loop ?ts ?ar 0 0 [text]")
    case (Inl e)
    with assms show ?thesis
      by (auto simp: chunk_document_def chunk_document_try_form_feed Let_def split: if_splits)
  next
    case (Inr cs)
    with assms have "p \<in> set cs"
      by (auto simp: chunk_document_def chunk_document_try_form_feed Let_def split: if_splits)
    with Inr pages_loop_single_page[of "?ts" "?ar" 0 0 "text" cs p] show ?thesis by simp
  qed
qed

text \<open>
  Claim C4 (form feeds segment the pages). The code at a text of two non-empty parts
  separated by a form feed: splitting at the form feed gives the two parts, but
  chunk_document emits a single passage that holds the whole text, with page 1.
\<close>

theorem form_feed_single_page:
  "split_char FF form_feed_text = [ustr ''Page one.'', ustr ''Page two.''] \<and>
   map (page \<circ> metadata) (chunk_document short_text_splitter form_feed_text) = [1] \<and>
   map text_key (chunk_document short_text_splitter form_feed_text) = [form_feed_text]"
  by (simp add: eval_defs short_text_splitter_def)

lemma chunk_document_language:
  assumes "p \<in> set (chunk_document sd text)"
  shows "language (metadata p) = None \<or>
         language (metadata p) =
           Some (if list_ex is_arabic_char (take 500 text) then ''arabic'' else ''english'')"
proof -
  let ?ar = "list_ex is_arabic_char (take 500 text)"
  show ?thesis
  proof (cases "chunk_document_try sd ?ar text")
    case (Inl e)
    with assms show ?thesis
      by (auto simp: chunk_document_def Let_def split: if_splits)
  next
    case (Inr cs)
    with assms have mem: "p \<in> set cs"
      by (auto simp: chunk_document_def Let_def split: if_splits)
    from Inr obtain ts ps where "pages_loop ts ?ar 0 0 ps = Inr cs"
      by (auto simp: chunk_document_try_def Let_def split: pages.splits if_splits)
    from pages_loop_language[OF this mem] show ?thesis by simp
  qed
qed

lemma mixed_text_flag: "list_ex is_arabic_char (take 500 mixed_text) = False"
  by (simp add: mixed_text_def list_ex_iff is_arabic_char_def)

lemma mixed_text_detect: "detect_language detect mixed_text = ''arabic''"
proof -
  have "\<not> whitespace_only mixed_text"
    by (simp add: whitespace_only_def mixed_text_def py_isspace_def)
  then have "strip mixed_text \<noteq> []" by (simp add: strip_Nil_iff)
  moreover have "mixed_text \<noteq> []" by (simp add: mixed_text_def)
  moreover have "length (filter is_arabic_char mixed_text) = 1500"
    by (simp add: mixed_text_def is_arabic_char_def)
  moreover have "length mixed_text = 2000" by (simp add: mixed_text_def)
  ultimately show ?thesis by (simp add: detect_language_def Let_def)
qed

text \<open>
  Claim C9 (every passage carries the language that detect_language finds). The code at
  a text of 500 Latin letters followed by 1500 Arabic letters: detect_language answers
  arabic, whatever langdetect does, since three quarters of the characters are Arabic; no passage
  of chunk_document is tagged arabic, whatever the splitter returns, since the flag of
  line 173 looks at the first 500 characters only. And the fallback passage, emitted when
  the splitter raises, has no language tag at all.
\<close>

theorem language_tag_disagrees:
  "detect_language detect mixed_text = ''arabic'' \<and>
   Some ''arabic'' \<notin> set (map (language \<circ> metadata) (chunk_document sd mixed_text)) \<and>
   map (language \<circ> metadata) (chunk_document raising_splitter form_feed_text) = [None]"
proof -
  have "Some ''arabic'' \<notin> set (map (language \<circ> metadata) (chunk_document sd mixed_text))"
  proof
    assume "Some ''arabic'' \<in> set (map (language \<circ> metadata) (chunk_document sd mixed_text))"
    then obtain p where "p \<in> set (chunk_document sd mixed_text)" "language (metadata p) = Some ''arabic''"
      by auto
    with chunk_document_language[of p sd mixed_text] show False
      by (simp add: mixed_text_flag)
  qed
  moreover have "map (language \<circ> metadata) (chunk_document raising_splitter form_feed_text) = [None]"
    by (simp add: eval_defs raising_splitter_def)
  ultimately show ?thesis using mixed_text_detect by blast
qed

subsection \<open>Builds that fail or are empty\<close>

lemmas store_defs = built_store_def failed_store_def add_document_def toy_encode_def init_def
  mk_passage_def ustr_def shape1_def index_add_def IndexFlatL2_def Let_def

lemma built_store_eval:
  "built_store = \<lparr>index = Some \<lparr>dims = 2, vectors = [[4, 427], [7, 738], [2, 231]]\<rparr>,
     chunks = [mk_passage 0 ''cats'', mk_passage 1 ''doggies'', mk_passage 2 ''ox''], dimension = 2\<rparr>"
  by (simp add: store_defs)

lemma failed_store_eval:
  "failed_store = built_store\<lparr>chunks := [mk_passage 0 ''hedgehogs'', mk_passage 1 ''zebra'']\<rparr>"
  by (simp add: built_store_eval failed_store_def add_document_def toy_encode_def mk_passage_def ustr_def Let_def)

text \<open>
  Claim C1 (a build is atomic; the store never holds a new passage list next to the
  vectors of the old index). The code at a build whose embedding call raises: a first
  build of three passages succeeds; a second build of two passages raises
  EmbeddingError; afterwards the store holds the two new passages but still the index
  with the three old vectors, and a search returns the new passage hedgehogs with the
  distance of the query to the vector of the old passage cats.
\<close>

theorem failed_build_mispairs:
  "snd (snd (add_document toy_encode init
      [mk_passage 0 ''cats'', mk_passage 1 ''doggies'', mk_passage 2 ''ox''])) = Inr 3 \<and>
   snd (snd (add_document toy_encode built_store
      [mk_passage 0 ''hedgehogs'', mk_passage 1 ''zebra''])) = Inl EmbeddingError \<and>
   chunks failed_store = [mk_passage 0 ''hedgehogs'', mk_passage 1 ''zebra''] \<and>
   index failed_store = index built_store \<and>
   index built_store = Some \<lparr>dims = 2, vectors = [[4, 427], [7, 738], [2, 231]]\<rparr> \<and>
   results_of (search toy_encode failed_store (ustr ''cat'') 2) =
     [\<lparr>chunk = ustr ''hedgehogs'', result_metadata = metadata (mk_passage 0 ''hedgehogs''),
       score = 13226\<rparr>]"
proof -
  have a: "snd (snd (add_document toy_encode init
      [mk_passage 0 ''cats'', mk_passage 1 ''doggies'', mk_passage 2 ''ox''])) = Inr 3"
    by (simp add: store_defs)
  have b: "snd (snd (add_document toy_encode built_store
      [mk_passage 0 ''hedgehogs'', mk_passage 1 ''zebra''])) = Inl EmbeddingError"
    by (simp add: built_store_eval add_document_def toy_encode_def mk_passage_def ustr_def Let_def)
  have c: "results_of (search toy_encode failed_store (ustr ''cat'') 2) =
     [\<lparr>chunk = ustr ''hedgehogs'', result_metadata = metadata (mk_passage 0 ''hedgehogs''),
       score = 13226\<rparr>]"
    by (simp add: failed_store_eval built_store_eval search_def search_try_def index_search_def
        knn_def l2_sqr_def toy_encode_def results_of_def mk_passage_def ustr_def Let_def)
  show ?thesis using a b c by (simp add: failed_store_eval built_store_eval)
qed

text \<open>
  An empty build does touch the stored passage set: after a build of three passages, a
  build with no passages leaves a different passage list.
\<close>

theorem empty_build_counterexample:
  "chunks (fst (add_document toy_encode built_store [])) \<noteq> chunks built_store"
  by (simp add: built_store_eval add_document_def Let_def)

subsection \<open>Normalisation against the specification\<close>

text \<open>
  Claim C7, as the code has it: fix_arabic_text returns the empty string unchanged and
  returns the empty string for every input that holds whitespace only; for every other
  input it collapses each run of spaces to one space and each run of three or more
  newlines to two newlines, and applies the Arabic table to the result. The function is
  total: no step of it can raise on a string.
\<close>

theorem fix_arabic_text_collapses:
  "fix_arabic_text [] = [] \<and>
   (whitespace_only x \<longrightarrow> fix_arabic_text x = []) \<and>
   (\<not> whitespace_only x \<longrightarrow> fix_arabic_text x = arabic_table (collapse_runs_spec x))"
  by (simp add: fix_arabic_text_unfold sub_ws_groups whitespace_only_def)

lemma replicate_2: "replicate 2 x = [x, x]"
  by (simp add: numeral_2_eq_2)

lemma sample_collapsed:
  "arabic_table (collapse_runs_spec sample_text) =
     ustr ''a b'' @ [NL, NL] @ [0x627, SP, 0x644, 0x627]"
  by (simp add: sample_text_def collapse_runs_spec_def ungroup_def collapse_group_def
      arabic_table_def replacements_def replace_char_def ustr_def replicate_2)

text \<open>
  A whitespace-only input and an input with a run of spaces, a run of four newlines, an
  alef with hamza and a ligature.
\<close>

theorem fix_arabic_text_collapses_witness:
  "whitespace_only [SP, SP, NL] \<and> fix_arabic_text [SP, SP, NL] = [] \<and>
   \<not> whitespace_only sample_text \<and>
   fix_arabic_text sample_text = ustr ''a b'' @ [NL, NL] @ [0x627, SP, 0x644, 0x627]"
proof -
  have w: "whitespace_only [SP, SP, NL]"
    by (simp add: whitespace_only_def py_isspace_def)
  have n: "\<not> whitespace_only sample_text"
    by (simp add: whitespace_only_def sample_text_def py_isspace_def ustr_def)
  from fix_arabic_text_collapses[of "[SP, SP, NL]"] w
  have a: "fix_arabic_text [SP, SP, NL] = []" by blast
  from fix_arabic_text_collapses[of sample_text] n
  have "fix_arabic_text sample_text = arabic_table (collapse_runs_spec sample_text)" by blast
  with sample_collapsed have b: "fix_arabic_text sample_text = ustr ''a b'' @ [NL, NL] @ [0x627, SP, 0x644, 0x627]"
    by simp
  from w n a b show ?thesis by blast
qed

text \<open>
  On a string of three spaces the code returns the empty string, where collapsing the
  run would give one space.
\<close>

theorem whitespace_only_counterexample:
  "fix_arabic_text [SP, SP, SP] = [] \<and> arabic_table (collapse_runs_spec [SP, SP, SP]) = [SP]"
  by (simp add: fix_arabic_text_def strip_def py_isspace_def collapse_runs_spec_def ungroup_def
      collapse_group_def arabic_table_def replacements_def replace_char_def)

text \<open>
  An input that normalisation changes, and that it changes once only.
\<close>

theorem fix_arabic_text_idem_witness:
  "fix_arabic_text (fix_arabic_text sample_text) = fix_arabic_text sample_text \<and>
   fix_arabic_text sample_text \<noteq> sample_text"
proof -
  have "fix_arabic_text sample_text \<noteq> sample_text"
    by (simp add: fix_arabic_text_def sample_text_def strip_def py_isspace_def ustr_def
        replace_char_def replacements_def)
  with fix_arabic_text_idem[of sample_text] show ?thesis by blast
qed

subsection \<open>Concrete runs of the index\<close>

lemma toy_encode_length: "\<forall>ts vs. toy_encode ts = Inr vs \<longrightarrow> length vs = length ts"
  by (auto simp: toy_encode_def split: if_splits)

lemma toy_encode_cat: "toy_encode [ustr ''cat''] = Inr [[3, 312]]"
  by (simp add: toy_encode_def ustr_def)

text \<open>
  A build of three passages and a search for two of them.
\<close>

theorem search_built_witness:
  "add_document toy_encode init [mk_passage 0 ''cats'', mk_passage 1 ''doggies'', mk_passage 2 ''ox'']
     = (built_store, [AddingChunks 3, IndexCreated 2], Inr 3) \<and>
   toy_encode [ustr ''cat''] = Inr [[3, 312]] \<and>
   length [3, 312 :: real] = dimension built_store \<and>
   (\<exists>lg' rs. search toy_encode built_store (ustr ''cat'') 2 = (lg', Inr rs) \<and>
       length rs = min (nat 2) (length [mk_passage 0 ''cats'', mk_passage 1 ''doggies'', mk_passage 2 ''ox'']) \<and>
       sorted (map score rs) \<and>
       (\<forall>r\<in>set rs. \<exists>i<length [mk_passage 0 ''cats'', mk_passage 1 ''doggies'', mk_passage 2 ''ox''].
            chunk r = text_key ([mk_passage 0 ''cats'', mk_passage 1 ''doggies'', mk_passage 2 ''ox''] ! i) \<and>
            result_metadata r = metadata ([mk_passage 0 ''cats'', mk_passage 1 ''doggies'', mk_passage 2 ''ox''] ! i)))"
proof -
  let ?cs = "[mk_passage 0 ''cats'', mk_passage 1 ''doggies'', mk_passage 2 ''ox'']"
  have h1: "add_document toy_encode init ?cs = (built_store, [AddingChunks 3, IndexCreated 2], Inr 3)"
    by (simp add: store_defs)
  have h4: "length [3, 312 :: real] = dimension built_store"
    by (simp add: built_store_eval)
  have h5: "(1::int) \<le> 2" by simp
  from search_built[OF h1 toy_encode_length toy_encode_cat h4 h5] h1 toy_encode_cat h4
  show ?thesis by blast
qed

text \<open>
  A store that was never built, and a built store with a query that the embedding
  function rejects.
\<close>

theorem search_never_raises_witness:
  "index init = None \<and> snd (search toy_encode init (ustr ''cat'') 3) = Inr [] \<and>
   index built_store = Some \<lparr>dims = 2, vectors = [[4, 427], [7, 738], [2, 231]]\<rparr> \<and>
   chunks built_store \<noteq> [] \<and>
   search_try toy_encode \<lparr>dims = 2, vectors = [[4, 427], [7, 738], [2, 231]]\<rparr> (chunks built_store)
      (ustr ''dogdogdog'') 3 = Inl EmbeddingError \<and>
   search toy_encode built_store (ustr ''dogdogdog'') 3 = ([ErrorDuringSearch EmbeddingError], Inr [])"
proof -
  let ?ix = "\<lparr>dims = 2, vectors = [[4, 427], [7, 738], [2, 231 :: real]]\<rparr>"
  have a: "index init = None" by (simp add: init_def)
  have b: "index built_store = Some ?ix" and c: "chunks built_store \<noteq> []"
    by (simp_all add: built_store_eval)
  have e: "search_try toy_encode ?ix (chunks built_store) (ustr ''dogdogdog'') 3 = Inl EmbeddingError"
    by (simp add: search_try_def toy_encode_def ustr_def)
  from search_never_raises[of toy_encode init "ustr ''cat''" 3] a
  have r1: "snd (search toy_encode init (ustr ''cat'') 3) = Inr []" by blast
  from search_never_raises[of toy_encode built_store "ustr ''dogdogdog''" 3] b c e
  have r2: "search toy_encode built_store (ustr ''dogdogdog'') 3 = ([ErrorDuringSearch EmbeddingError], Inr [])"
    by blast
  from a b c e r1 r2 show ?thesis by blast
qed

text \<open>
  The store after a failed build holds three vectors and two passages: of the five hits
  of the index, the one with label 2 and the two with label -1 are dropped.
\<close>

theorem search_in_bounds_witness:
  "results_of (search toy_encode failed_store (ustr ''cat'') 5) \<noteq> [] \<and>
   list_all (\<lambda>r. \<exists>i<length (chunks failed_store).
        chunk r = text_key (chunks failed_store ! i) \<and> result_metadata r = metadata (chunks failed_store ! i))
     (results_of (search toy_encode failed_store (ustr ''cat'') 5)) \<and>
   index failed_store = Some \<lparr>dims = 2, vectors = [[4, 427], [7, 738], [2, 231]]\<rparr> \<and>
   length (chunks failed_store) = 2 \<and>
   toy_encode [ustr ''cat''] = Inr [[3, 312]] \<and>
   map snd (knn \<lparr>dims = 2, vectors = [[4, 427], [7, 738], [2, 231]]\<rparr> [3, 312] (nat 5)) = [2, 0, 1, - 1, - 1] \<and>
   length (results_of (search toy_encode failed_store (ustr ''cat'') 5)) = 2"
proof -
  let ?ix = "\<lparr>dims = 2, vectors = [[4, 427], [7, 738], [2, 231 :: real]]\<rparr>"
  have ix: "index failed_store = Some ?ix" and len: "length (chunks failed_store) = 2"
    by (simp_all add: failed_store_eval built_store_eval)
  then have ne: "chunks failed_store \<noteq> []" by auto
  have k: "map snd (knn ?ix [3, 312] (nat 5)) = [2, 0, 1, - 1, - 1]"
    by (simp add: knn_def l2_sqr_def Let_def replicate_2)
  have dim: "length [3, 312 :: real] = dims ?ix" by simp
  have kn: "knn ?ix [3, 312] 5 = [(6562, 2), (13226, 0), (181492, 1), (FLT_MAX, - 1), (FLT_MAX, - 1)]"
    by (simp add: knn_def l2_sqr_def Let_def replicate_2)
  from search_in_bounds[of toy_encode failed_store "ustr ''cat''" 5]
  have bounds: "\<forall>r\<in>set (results_of (search toy_encode failed_store (ustr ''cat'') 5)).
      \<exists>i<length (chunks failed_store).
        chunk r = text_key (chunks failed_store ! i) \<and> result_metadata r = metadata (chunks failed_store ! i)"
    and drops: "results_of (search toy_encode failed_store (ustr ''cat'') 5) =
        map (result_of (chunks failed_store)) (filter (in_range (chunks failed_store)) (knn ?ix [3, 312] (nat 5)))"
    using ix ne toy_encode_cat dim by auto
  from drops have two: "length (results_of (search toy_encode failed_store (ustr ''cat'') 5)) = 2"
    by (simp add: kn in_range_def len)
  then have ne: "results_of (search toy_encode failed_store (ustr ''cat'') 5) \<noteq> []" by auto
  from bounds have "list_all (\<lambda>r. \<exists>i<length (chunks failed_store).
        chunk r = text_key (chunks failed_store ! i) \<and> result_metadata r = metadata (chunks failed_store ! i))
     (results_of (search toy_encode failed_store (ustr ''cat'') 5))"
    unfolding list_all_iff .
  with ne ix len toy_encode_cat k two show ?thesis by blast
qed

end
